theory Spec2Isabelle
  imports Main "HOL-Library.Sublist"
begin

section \<open>wangle/acceptor/ManagedConnection.h\<close>

text \<open>
  The class \<^verbatim>\<open>wangle::ManagedConnection\<close> is the interface of a connection that a
  container such as an Acceptor manages. The header holds all of the drain state machine
  (\<^verbatim>\<open>fireNotifyPendingShutdown\<close>, \<^verbatim>\<open>fireCloseWhenIdle\<close>), the accessors of the
  back-reference to the connection manager and the default \<^verbatim>\<open>getIdleTime\<close>. The
  member functions only declared there (\<^verbatim>\<open>resetTimeout\<close>, the constructor) live in
  a translation unit that is not part of the sources at hand.

  Conventions of the embedding:
  \<^item> the private members \<^verbatim>\<open>state_\<close>, \<^verbatim>\<open>connectionManager_\<close> and \<^verbatim>\<open>listHook_\<close> are the
    record fields \<open>state\<close>, \<open>connectionManager\<close> and \<open>listHook\<close> (an identifier of a
    record field cannot end in an underscore);
  \<^item> a \<^verbatim>\<open>ConnectionManager*\<close> is a \<open>'m option\<close>, with \<open>None\<close> for \<^verbatim>\<open>nullptr\<close>;
  \<^item> the pure virtual member functions \<^verbatim>\<open>notifyPendingShutdown\<close> and
    \<^verbatim>\<open>closeWhenIdle\<close> belong to the concrete connection type. They are parameters of
    the model: a record of functions on the state \<open>'s\<close> of the subtype. The private
    members of the base class are out of their reach in C++ as well. A hook that calls
    back into the drain entry points of its own object while it runs is outside this
    model;
  \<^item> every virtual call the base class makes is appended to the field \<open>invoked\<close>, oldest
    call first, so that "how often" and "in which order" can be stated.
\<close>

subsection \<open>Data\<close>

text \<open>\<^verbatim>\<open>enum class DrainState { NONE, SENT_NOTIFY_PENDING_SHUTDOWN, SENT_CLOSE_WHEN_IDLE }\<close>\<close>

datatype DrainState = NONE | SENT_NOTIFY_PENDING_SHUTDOWN | SENT_CLOSE_WHEN_IDLE

text \<open>The two drain hooks, as entries of the call log.\<close>

datatype hook = NotifyPendingShutdown | CloseWhenIdle

text \<open>The implementations a concrete connection type supplies for the drain hooks.\<close>

record 's hooks =
  notifyPendingShutdown :: "'s \<Rightarrow> 's"
  closeWhenIdle :: "'s \<Rightarrow> 's"

record ('m, 'l, 's) ManagedConnection =
  state :: DrainState
  connectionManager :: "'m option"
  listHook :: 'l
  subtype :: 's
  invoked :: "hook list"

text \<open>
  A newly constructed connection. The default member initializer of the header gives
  \<^verbatim>\<open>state_{DrainState::NONE}\<close>; no hook has been called. What the constructor stores in
  \<^verbatim>\<open>connectionManager_\<close> and \<^verbatim>\<open>listHook_\<close> is not visible in the header, so both are
  arguments.
\<close>

definition newConnection :: "'m option \<Rightarrow> 'l \<Rightarrow> 's \<Rightarrow> ('m, 'l, 's) ManagedConnection" where
  "newConnection mgr lh s =
     \<lparr>state = NONE, connectionManager = mgr, listHook = lh, subtype = s, invoked = []\<rparr>"

subsection \<open>The drain entry points\<close>

text \<open>The virtual calls \<^verbatim>\<open>notifyPendingShutdown()\<close> and \<^verbatim>\<open>closeWhenIdle()\<close>.\<close>

definition call_notifyPendingShutdown ::
  "'s hooks \<Rightarrow> ('m, 'l, 's) ManagedConnection \<Rightarrow> ('m, 'l, 's) ManagedConnection" where
  "call_notifyPendingShutdown v c =
     c\<lparr>subtype := notifyPendingShutdown v (subtype c),
       invoked := invoked c @ [NotifyPendingShutdown]\<rparr>"

definition call_closeWhenIdle ::
  "'s hooks \<Rightarrow> ('m, 'l, 's) ManagedConnection \<Rightarrow> ('m, 'l, 's) ManagedConnection" where
  "call_closeWhenIdle v c =
     c\<lparr>subtype := closeWhenIdle v (subtype c),
       invoked := invoked c @ [CloseWhenIdle]\<rparr>"

text \<open>
  \<^verbatim>\<open>
  void fireNotifyPendingShutdown() {
    if (state_ == DrainState::NONE) {
      state_ = DrainState::SENT_NOTIFY_PENDING_SHUTDOWN;
      notifyPendingShutdown();
    }
  }
  \<close>
\<close>

definition fireNotifyPendingShutdown ::
  "'s hooks \<Rightarrow> ('m, 'l, 's) ManagedConnection \<Rightarrow> ('m, 'l, 's) ManagedConnection" where
  "fireNotifyPendingShutdown v c =
     (if state c = NONE
      then call_notifyPendingShutdown v (c\<lparr>state := SENT_NOTIFY_PENDING_SHUTDOWN\<rparr>)
      else c)"

text \<open>
  \<^verbatim>\<open>
  void fireCloseWhenIdle(bool force_to_close = false) {
    if (force_to_close || state_ == DrainState::SENT_NOTIFY_PENDING_SHUTDOWN) {
      state_ = DrainState::SENT_CLOSE_WHEN_IDLE;
      closeWhenIdle();
    }
  }
  \<close>
\<close>

definition fireCloseWhenIdle ::
  "'s hooks \<Rightarrow> bool \<Rightarrow> ('m, 'l, 's) ManagedConnection \<Rightarrow> ('m, 'l, 's) ManagedConnection" where
  "fireCloseWhenIdle v force_to_close c =
     (if force_to_close \<or> state c = SENT_NOTIFY_PENDING_SHUTDOWN
      then call_closeWhenIdle v (c\<lparr>state := SENT_CLOSE_WHEN_IDLE\<rparr>)
      else c)"

subsection \<open>The back-reference to the connection manager\<close>

text \<open>\<^verbatim>\<open>ConnectionManager* getConnectionManager() { return connectionManager_; }\<close>\<close>

definition getConnectionManager :: "('m, 'l, 's) ManagedConnection \<Rightarrow> 'm option" where
  "getConnectionManager c = connectionManager c"

text \<open>\<^verbatim>\<open>void setConnectionManager(ConnectionManager* mgr) { connectionManager_ = mgr; }\<close>\<close>

definition setConnectionManager ::
  "'m option \<Rightarrow> ('m, 'l, 's) ManagedConnection \<Rightarrow> ('m, 'l, 's) ManagedConnection" where
  "setConnectionManager mgr c = c\<lparr>connectionManager := mgr\<rparr>"

subsection \<open>Sequences of calls\<close>

text \<open>
  The calls a connection manager (the only friend of the class) issues on one connection,
  and their effect one after the other.
\<close>

datatype 'm call =
    FireNotifyPendingShutdown
  | FireCloseWhenIdle bool
  | SetConnectionManager "'m option"

fun perform ::
  "'s hooks \<Rightarrow> 'm call \<Rightarrow> ('m, 'l, 's) ManagedConnection \<Rightarrow> ('m, 'l, 's) ManagedConnection" where
  "perform v FireNotifyPendingShutdown c = fireNotifyPendingShutdown v c"
| "perform v (FireCloseWhenIdle force_to_close) c = fireCloseWhenIdle v force_to_close c"
| "perform v (SetConnectionManager mgr) c = setConnectionManager mgr c"

fun run ::
  "'s hooks \<Rightarrow> 'm call list \<Rightarrow> ('m, 'l, 's) ManagedConnection \<Rightarrow> ('m, 'l, 's) ManagedConnection" where
  "run v [] c = c"
| "run v (x # xs) c = run v xs (perform v x c)"

text \<open>The connection before the first call and after each call, in order.\<close>

fun trajectory ::
  "'s hooks \<Rightarrow> 'm call list \<Rightarrow> ('m, 'l, 's) ManagedConnection
     \<Rightarrow> ('m, 'l, 's) ManagedConnection list" where
  "trajectory v [] c = [c]"
| "trajectory v (x # xs) c = c # trajectory v xs (perform v x c)"

text \<open>The drain states a connection passes through, a repeated state counted once.\<close>

definition visited ::
  "'s hooks \<Rightarrow> 'm call list \<Rightarrow> ('m, 'l, 's) ManagedConnection \<Rightarrow> DrainState list" where
  "visited v xs c = remdups_adj (map state (trajectory v xs c))"

text \<open>A call of \<^verbatim>\<open>fireCloseWhenIdle(true)\<close>.\<close>

fun forced :: "'m call \<Rightarrow> bool" where
  "forced (FireCloseWhenIdle force_to_close) = force_to_close"
| "forced _ = False"

text \<open>A call of one of the two drain entry points.\<close>

fun drain_call :: "'m call \<Rightarrow> bool" where
  "drain_call (SetConnectionManager mgr) = False"
| "drain_call _ = True"

text \<open>The position of a drain state in the enumeration.\<close>

fun rank :: "DrainState \<Rightarrow> nat" where
  "rank NONE = 0"
| "rank SENT_NOTIFY_PENDING_SHUTDOWN = 1"
| "rank SENT_CLOSE_WHEN_IDLE = 2"

subsection \<open>Idle time\<close>

text \<open>
  \<^verbatim>\<open>
  virtual std::chrono::milliseconds getIdleTime() const {
    return std::chrono::milliseconds(0);
  }
  \<close>
  A duration is its count of milliseconds. The member function is virtual: a concrete
  connection type either overrides it (\<open>Some f\<close>, reading the state of the subtype) or
  inherits the body above (\<open>None\<close>).
\<close>

definition ManagedConnection_getIdleTime :: "('m, 'l, 's) ManagedConnection \<Rightarrow> int" where
  "ManagedConnection_getIdleTime c = 0"

definition getIdleTime ::
  "('s \<Rightarrow> int) option \<Rightarrow> ('m, 'l, 's) ManagedConnection \<Rightarrow> int" where
  "getIdleTime override c =
     (case override of None \<Rightarrow> ManagedConnection_getIdleTime c | Some f \<Rightarrow> f (subtype c))"

text \<open>
  Modelled from the spec: the rule by which the connection manager picks connections
  for idle-based eviction before load shedding is not part of the sources at hand. The
  specification and the comment above \<^verbatim>\<open>getIdleTime\<close> fix one thing about it: a
  connection that reports an idle time of zero is never selected. Whatever else the
  manager requires (thresholds, elapsed time) is the parameter \<open>policy\<close>.
\<close>

definition idleEvictionSelects :: "(int \<Rightarrow> bool) \<Rightarrow> int \<Rightarrow> bool" where
  "idleEvictionSelects policy idleTime = (idleTime \<noteq> 0 \<and> policy idleTime)"

subsection \<open>Idle timeout\<close>

text \<open>
  Modelled from the spec: \<^verbatim>\<open>resetTimeout()\<close> is declared in the header and defined
  elsewhere. The specification reads: if the connection holds a live manager reference,
  reschedule (or newly schedule) the idle-expiry callback of this connection to fire
  after the manager's configured default interval from now, replacing any previously
  pending registration for this purpose; if no manager is attached, this is a no-op.
  The pending idle-timeout registration of the connection is an optional deadline in
  milliseconds, \<open>getDefaultTimeout\<close> reads the default interval of a manager and
  \<open>now\<close> is the current time.
\<close>

definition resetTimeout ::
  "('m \<Rightarrow> int) \<Rightarrow> int \<Rightarrow> ('m, 'l, 's) ManagedConnection \<times> int option
     \<Rightarrow> ('m, 'l, 's) ManagedConnection \<times> int option" where
  "resetTimeout getDefaultTimeout now ct =
     (case connectionManager (fst ct) of
        None \<Rightarrow> ct
      | Some mgr \<Rightarrow> (fst ct, Some (now + getDefaultTimeout mgr)))"

subsection \<open>A concrete connection type\<close>

text \<open>
  A connection type whose state is a counter: each drain hook increments it. The
  connection is newly constructed, with no manager attached.
\<close>

abbreviation countingHooks :: "nat hooks" where
  "countingHooks \<equiv> \<lparr>notifyPendingShutdown = Suc, closeWhenIdle = Suc\<rparr>"

abbreviation countingConnection :: "(unit, unit, nat) ManagedConnection" where
  "countingConnection \<equiv> newConnection None () 0"

section \<open>Properties\<close>

subsection \<open>Single calls\<close>

lemmas drain_defs =
  newConnection_def fireNotifyPendingShutdown_def fireCloseWhenIdle_def
  call_notifyPendingShutdown_def call_closeWhenIdle_def setConnectionManager_def
  getConnectionManager_def

lemma fireNotifyPendingShutdown_NONE:
  "state c = NONE \<Longrightarrow>
     fireNotifyPendingShutdown v c =
       c\<lparr>state := SENT_NOTIFY_PENDING_SHUTDOWN,
         subtype := notifyPendingShutdown v (subtype c),
         invoked := invoked c @ [NotifyPendingShutdown]\<rparr>"
  by (simp add: fireNotifyPendingShutdown_def call_notifyPendingShutdown_def)

lemma fireNotifyPendingShutdown_other:
  "state c \<noteq> NONE \<Longrightarrow> fireNotifyPendingShutdown v c = c"
  by (simp add: fireNotifyPendingShutdown_def)

lemma fireCloseWhenIdle_skips:
  "\<not> force_to_close \<Longrightarrow> state c \<noteq> SENT_NOTIFY_PENDING_SHUTDOWN \<Longrightarrow>
     fireCloseWhenIdle v force_to_close c = c"
  by (simp add: fireCloseWhenIdle_def)

text \<open>
  Claim C1. Whatever the drain state was, \<^verbatim>\<open>fireCloseWhenIdle(force)\<close> with
  \<open>force\<close> true, or in the state \<open>SENT_NOTIFY_PENDING_SHUTDOWN\<close>, sets the state to
  \<open>SENT_CLOSE_WHEN_IDLE\<close> and calls the hook \<^verbatim>\<open>closeWhenIdle\<close> exactly once: the call
  log grows by this one entry and the state of the subtype is the hook applied once. In
  every other case the connection is left as it was, so the state is unchanged and no
  hook is called. With \<open>force\<close> true the transition happens from every prior state.
\<close>

theorem fireCloseWhenIdle_contract:
  "(force_to_close \<or> state c = SENT_NOTIFY_PENDING_SHUTDOWN \<longrightarrow>
      state (fireCloseWhenIdle v force_to_close c) = SENT_CLOSE_WHEN_IDLE \<and>
      invoked (fireCloseWhenIdle v force_to_close c) = invoked c @ [CloseWhenIdle] \<and>
      subtype (fireCloseWhenIdle v force_to_close c) = closeWhenIdle v (subtype c)) \<and>
   (\<not> (force_to_close \<or> state c = SENT_NOTIFY_PENDING_SHUTDOWN) \<longrightarrow>
      fireCloseWhenIdle v force_to_close c = c) \<and>
   state (fireCloseWhenIdle v True c) = SENT_CLOSE_WHEN_IDLE \<and>
   invoked (fireCloseWhenIdle v True c) = invoked c @ [CloseWhenIdle]"
  by (simp add: fireCloseWhenIdle_def call_closeWhenIdle_def)

theorem fireCloseWhenIdle_contract_witness:
  "state (fireCloseWhenIdle countingHooks False
            (countingConnection\<lparr>state := SENT_NOTIFY_PENDING_SHUTDOWN\<rparr>))
     = SENT_CLOSE_WHEN_IDLE \<and>
   invoked (fireCloseWhenIdle countingHooks True countingConnection) = [CloseWhenIdle] \<and>
   fireCloseWhenIdle countingHooks False countingConnection = countingConnection"
  using
    fireCloseWhenIdle_contract
      [where force_to_close = False and v = countingHooks
         and c = "countingConnection\<lparr>state := SENT_NOTIFY_PENDING_SHUTDOWN\<rparr>"]
    fireCloseWhenIdle_contract
      [where force_to_close = True and v = countingHooks and c = countingConnection]
    fireCloseWhenIdle_contract
      [where force_to_close = False and v = countingHooks and c = countingConnection]
  by (simp add: drain_defs)

text \<open>
  Claim C6. From the drain state \<open>NONE\<close>, \<^verbatim>\<open>fireNotifyPendingShutdown()\<close> followed
  by \<^verbatim>\<open>fireCloseWhenIdle(false)\<close> calls \<^verbatim>\<open>notifyPendingShutdown\<close> exactly once, then
  \<^verbatim>\<open>closeWhenIdle\<close> exactly once: the call log grows by these two entries, in this
  order, and the subtype has seen the first hook, then the second.
\<close>

theorem notify_then_close:
  "state c = NONE \<Longrightarrow>
     invoked (fireCloseWhenIdle v False (fireNotifyPendingShutdown v c))
       = invoked c @ [NotifyPendingShutdown, CloseWhenIdle] \<and>
     state (fireCloseWhenIdle v False (fireNotifyPendingShutdown v c)) = SENT_CLOSE_WHEN_IDLE \<and>
     subtype (fireCloseWhenIdle v False (fireNotifyPendingShutdown v c))
       = closeWhenIdle v (notifyPendingShutdown v (subtype c))"
  by (simp add: fireNotifyPendingShutdown_def fireCloseWhenIdle_def
        call_notifyPendingShutdown_def call_closeWhenIdle_def)

theorem notify_then_close_witness:
  "state countingConnection = NONE \<and>
   invoked (fireCloseWhenIdle countingHooks False
              (fireNotifyPendingShutdown countingHooks countingConnection))
     = [NotifyPendingShutdown, CloseWhenIdle]"
  using notify_then_close [where c = countingConnection and v = countingHooks]
  by (simp add: drain_defs)

subsection \<open>Sequences of calls\<close>

lemma run_append: "run v (xs @ ys) c = run v ys (run v xs c)"
  by (induction xs arbitrary: c) simp_all

lemma run_snoc: "run v (xs @ [x]) c = perform v x (run v xs c)"
  by (simp add: run_append)

lemma perform_cases:
  "perform v x c = c \<or>
   (state c = NONE \<and> x = FireNotifyPendingShutdown \<and>
      state (perform v x c) = SENT_NOTIFY_PENDING_SHUTDOWN \<and>
      invoked (perform v x c) = invoked c @ [NotifyPendingShutdown]) \<or>
   ((forced x \<or> state c = SENT_NOTIFY_PENDING_SHUTDOWN) \<and> (\<exists>b. x = FireCloseWhenIdle b) \<and>
      state (perform v x c) = SENT_CLOSE_WHEN_IDLE \<and>
      invoked (perform v x c) = invoked c @ [CloseWhenIdle]) \<or>
   ((\<exists>m. x = SetConnectionManager m) \<and> state (perform v x c) = state c \<and>
      invoked (perform v x c) = invoked c)"
  by (cases x)
     (auto simp: fireNotifyPendingShutdown_def fireCloseWhenIdle_def setConnectionManager_def
        call_notifyPendingShutdown_def call_closeWhenIdle_def)

lemma perform_rank: "rank (state c) \<le> rank (state (perform v x c))"
  using perform_cases [of v x c] by (cases "state c") auto

lemma run_rank: "rank (state c) \<le> rank (state (run v xs c))"
proof (induction xs arbitrary: c)
  case Nil
  show ?case by simp
next
  case (Cons x xs)
  have "rank (state c) \<le> rank (state (perform v x c))" by (rule perform_rank)
  also have "\<dots> \<le> rank (state (run v xs (perform v x c)))" by (rule Cons.IH)
  finally show ?case by simp
qed

lemma drain_invariant:
  "\<exists>a n. invoked (run v xs (newConnection mgr lh s)) =
            replicate a NotifyPendingShutdown @ replicate n CloseWhenIdle \<and>
          a \<le> 1 \<and> n \<le> Suc (length (filter forced xs)) \<and>
          (state (run v xs (newConnection mgr lh s)) = NONE \<longrightarrow> a = 0 \<and> n = 0) \<and>
          (state (run v xs (newConnection mgr lh s)) = SENT_NOTIFY_PENDING_SHUTDOWN \<longrightarrow>
             a = 1 \<and> n = 0) \<and>
          (state (run v xs (newConnection mgr lh s)) = SENT_CLOSE_WHEN_IDLE \<longrightarrow> 0 < n)"
proof (induction xs rule: rev_induct)
  case Nil
  show ?case by (simp add: newConnection_def)
next
  case (snoc x xs)
  let ?c = "run v xs (newConnection mgr lh s)"
  let ?d = "perform v x ?c"
  have run: "run v (xs @ [x]) (newConnection mgr lh s) = ?d" by (rule run_snoc)
  from snoc obtain a n where inv: "invoked ?c = replicate a NotifyPendingShutdown @ replicate n CloseWhenIdle"
    and a: "a \<le> 1" and n: "n \<le> Suc (length (filter forced xs))"
    and s0: "state ?c = NONE \<Longrightarrow> a = 0 \<and> n = 0"
    and s1: "state ?c = SENT_NOTIFY_PENDING_SHUTDOWN \<Longrightarrow> a = 1 \<and> n = 0"
    and s2: "state ?c = SENT_CLOSE_WHEN_IDLE \<Longrightarrow> 0 < n"
    by blast
  consider (same) "?d = ?c"
    | (notify) "state ?c = NONE" "state ?d = SENT_NOTIFY_PENDING_SHUTDOWN"
        "invoked ?d = invoked ?c @ [NotifyPendingShutdown]"
    | (close) "forced x \<or> state ?c = SENT_NOTIFY_PENDING_SHUTDOWN"
        "state ?d = SENT_CLOSE_WHEN_IDLE" "invoked ?d = invoked ?c @ [CloseWhenIdle]"
    | (setmgr) "state ?d = state ?c" "invoked ?d = invoked ?c"
    using perform_cases [of v x ?c] by blast
  then show ?case
  proof cases
    case same
    show ?thesis unfolding run same
      by (rule exI [of _ a], rule exI [of _ n]) (use inv a n s0 s1 s2 in simp)
  next
    case notify
    from s0 notify have "a = 0" "n = 0" by simp_all
    with inv notify have "invoked ?d = replicate 1 NotifyPendingShutdown @ replicate 0 CloseWhenIdle"
      by (simp add: drain_defs)
    then show ?thesis unfolding run
      by (intro exI [of _ 1] exI [of _ 0]) (use notify in simp)
  next
    case close
    have bound: "Suc n \<le> Suc (length (filter forced (xs @ [x])))"
    proof (cases "forced x")
      case True
      with n show ?thesis by simp
    next
      case False
      with close have "state ?c = SENT_NOTIFY_PENDING_SHUTDOWN" by simp
      with s1 show ?thesis by simp
    qed
    from inv close have "invoked ?d = replicate a NotifyPendingShutdown @ replicate (Suc n) CloseWhenIdle"
      by (simp add: replicate_append_same)
    then show ?thesis unfolding run
      by (intro exI [of _ a] exI [of _ "Suc n"]) (use close a bound in simp)
  next
    case setmgr
    show ?thesis unfolding run
      by (rule exI [of _ a], rule exI [of _ n]) (use setmgr inv a n s0 s1 s2 in simp)
  qed
qed

lemma count_list_replicate: "count_list (replicate n x) y = (if x = y then n else 0)"
  by (induction n) auto

lemma run_drain_connectionManager:
  "\<forall>x \<in> set ys. drain_call x \<Longrightarrow> connectionManager (run v ys c) = connectionManager c"
proof (induction ys arbitrary: c)
  case Nil
  show ?case by simp
next
  case (Cons y ys)
  from Cons.prems have "drain_call y" by simp
  then have "connectionManager (perform v y c) = connectionManager c"
    by (cases y)
       (simp_all add: fireNotifyPendingShutdown_def fireCloseWhenIdle_def
          call_notifyPendingShutdown_def call_closeWhenIdle_def)
  with Cons show ?case by simp
qed

text \<open>
  Claim C2. \<^verbatim>\<open>fireNotifyPendingShutdown\<close> in the state \<open>NONE\<close> moves to
  \<open>SENT_NOTIFY_PENDING_SHUTDOWN\<close> and calls the hook \<^verbatim>\<open>notifyPendingShutdown\<close> once; in
  every other state it leaves the connection as it was and calls nothing. Over the life
  of a connection, whatever calls are made on it, the hook is called at most once; two
  calls of \<^verbatim>\<open>fireNotifyPendingShutdown\<close> on a new connection call it exactly once.
\<close>

theorem notifyPendingShutdown_at_most_once:
  "(state c = NONE \<longrightarrow>
      state (fireNotifyPendingShutdown v c) = SENT_NOTIFY_PENDING_SHUTDOWN \<and>
      invoked (fireNotifyPendingShutdown v c) = invoked c @ [NotifyPendingShutdown] \<and>
      subtype (fireNotifyPendingShutdown v c) = notifyPendingShutdown v (subtype c)) \<and>
   (state c \<noteq> NONE \<longrightarrow> fireNotifyPendingShutdown v c = c) \<and>
   count_list (invoked (run v xs (newConnection mgr lh s))) NotifyPendingShutdown \<le> 1 \<and>
   invoked (fireNotifyPendingShutdown v (fireNotifyPendingShutdown v (newConnection mgr lh s)))
     = [NotifyPendingShutdown]"
proof -
  obtain a n where "invoked (run v xs (newConnection mgr lh s)) =
      replicate a NotifyPendingShutdown @ replicate n CloseWhenIdle" and "a \<le> 1"
    using drain_invariant [of v xs mgr lh s] by blast
  then have "count_list (invoked (run v xs (newConnection mgr lh s))) NotifyPendingShutdown \<le> 1"
    by (simp add: count_list_replicate)
  moreover have "invoked (fireNotifyPendingShutdown v
      (fireNotifyPendingShutdown v (newConnection mgr lh s))) = [NotifyPendingShutdown]"
    by (simp add: fireNotifyPendingShutdown_def call_notifyPendingShutdown_def newConnection_def)
  ultimately show ?thesis
    by (simp add: fireNotifyPendingShutdown_NONE fireNotifyPendingShutdown_other)
qed

theorem notifyPendingShutdown_at_most_once_witness:
  "state (fireNotifyPendingShutdown countingHooks countingConnection)
     = SENT_NOTIFY_PENDING_SHUTDOWN \<and>
   fireNotifyPendingShutdown countingHooks (countingConnection\<lparr>state := SENT_CLOSE_WHEN_IDLE\<rparr>)
     = countingConnection\<lparr>state := SENT_CLOSE_WHEN_IDLE\<rparr> \<and>
   count_list
     (invoked (run countingHooks
        [FireNotifyPendingShutdown, FireCloseWhenIdle True, FireNotifyPendingShutdown]
        countingConnection))
     NotifyPendingShutdown \<le> 1"
  using
    notifyPendingShutdown_at_most_once
      [where c = countingConnection and v = countingHooks
         and xs = "[FireNotifyPendingShutdown, FireCloseWhenIdle True, FireNotifyPendingShutdown]"
         and mgr = None and lh = "()" and s = 0]
    notifyPendingShutdown_at_most_once
      [where c = "countingConnection\<lparr>state := SENT_CLOSE_WHEN_IDLE\<rparr>" and v = countingHooks
         and xs = "[]" and mgr = None and lh = "()" and s = 0]
  by (simp add: drain_defs)

text \<open>
  Claim C3. Along every sequence of calls the drain state never moves back in the order
  \<open>NONE\<close>, \<open>SENT_NOTIFY_PENDING_SHUTDOWN\<close>, \<open>SENT_CLOSE_WHEN_IDLE\<close>: the state after a
  longer sequence is never earlier than the state after a prefix of it. A call whose
  required predecessor state does not match (\<^verbatim>\<open>fireNotifyPendingShutdown\<close> outside
  \<open>NONE\<close>, an unforced \<^verbatim>\<open>fireCloseWhenIdle\<close> outside \<open>SENT_NOTIFY_PENDING_SHUTDOWN\<close>)
  returns the connection unchanged; neither entry point has an error exit.
\<close>

theorem drainState_never_regresses:
  "rank (state (run v xs c)) \<le> rank (state (run v (xs @ ys) c)) \<and>
   (state c \<noteq> NONE \<longrightarrow> fireNotifyPendingShutdown v c = c) \<and>
   (state c \<noteq> SENT_NOTIFY_PENDING_SHUTDOWN \<longrightarrow> fireCloseWhenIdle v False c = c)"
  by (simp add: run_append run_rank fireNotifyPendingShutdown_other fireCloseWhenIdle_skips)

theorem drainState_never_regresses_witness:
  "rank (state (run countingHooks [FireNotifyPendingShutdown] countingConnection))
     \<le> rank (state (run countingHooks
                ([FireNotifyPendingShutdown] @ [FireCloseWhenIdle False]) countingConnection)) \<and>
   fireNotifyPendingShutdown countingHooks (countingConnection\<lparr>state := SENT_CLOSE_WHEN_IDLE\<rparr>)
     = countingConnection\<lparr>state := SENT_CLOSE_WHEN_IDLE\<rparr> \<and>
   fireCloseWhenIdle countingHooks False (countingConnection\<lparr>state := SENT_CLOSE_WHEN_IDLE\<rparr>)
     = countingConnection\<lparr>state := SENT_CLOSE_WHEN_IDLE\<rparr>"
  using
    drainState_never_regresses
      [where c = countingConnection and v = countingHooks
         and xs = "[FireNotifyPendingShutdown]" and ys = "[FireCloseWhenIdle False]"]
    drainState_never_regresses
      [where c = "countingConnection\<lparr>state := SENT_CLOSE_WHEN_IDLE\<rparr>" and v = countingHooks
         and xs = "[]" and ys = "[]"]
  by (simp add: drain_defs)

subsection \<open>The states a connection passes through\<close>

lemma trajectory_Cons: "\<exists>t. trajectory v xs c = c # t"
  by (cases xs) simp_all

lemma visited_Nil: "visited v [] c = [state c]"
  by (simp add: visited_def)

lemma visited_Cons:
  "visited v (x # xs) c =
     (if state c = state (perform v x c) then visited v xs (perform v x c)
      else state c # visited v xs (perform v x c))"
proof -
  obtain t where "trajectory v xs (perform v x c) = perform v x c # t"
    using trajectory_Cons by blast
  then show ?thesis by (simp add: visited_def)
qed

lemma perform_CLOSE:
  "state c = SENT_CLOSE_WHEN_IDLE \<Longrightarrow> state (perform v x c) = SENT_CLOSE_WHEN_IDLE"
  using perform_cases [of v x c] by auto

lemma perform_NOTIFY:
  "state c = SENT_NOTIFY_PENDING_SHUTDOWN \<Longrightarrow>
     state (perform v x c) = SENT_NOTIFY_PENDING_SHUTDOWN \<or>
     state (perform v x c) = SENT_CLOSE_WHEN_IDLE"
  using perform_cases [of v x c] by auto

lemma perform_NONE_unforced:
  "state c = NONE \<Longrightarrow> \<not> forced x \<Longrightarrow>
     state (perform v x c) = NONE \<or> state (perform v x c) = SENT_NOTIFY_PENDING_SHUTDOWN"
  using perform_cases [of v x c] by auto

lemma visited_CLOSE:
  "state c = SENT_CLOSE_WHEN_IDLE \<Longrightarrow> visited v xs c = [SENT_CLOSE_WHEN_IDLE]"
proof (induction xs arbitrary: c)
  case Nil
  then show ?case by (simp add: visited_Nil)
next
  case (Cons x xs)
  from Cons.prems have "state (perform v x c) = SENT_CLOSE_WHEN_IDLE" by (rule perform_CLOSE)
  with Cons show ?case by (simp add: visited_Cons)
qed

lemma visited_NOTIFY:
  "state c = SENT_NOTIFY_PENDING_SHUTDOWN \<Longrightarrow>
     visited v xs c = [SENT_NOTIFY_PENDING_SHUTDOWN] \<or>
     visited v xs c = [SENT_NOTIFY_PENDING_SHUTDOWN, SENT_CLOSE_WHEN_IDLE]"
proof (induction xs arbitrary: c)
  case Nil
  then show ?case by (simp add: visited_Nil)
next
  case (Cons x xs)
  from perform_NOTIFY [OF Cons.prems, of v x] show ?case
  proof
    assume st: "state (perform v x c) = SENT_NOTIFY_PENDING_SHUTDOWN"
    from Cons.IH [OF st] Cons.prems st show ?thesis by (simp add: visited_Cons)
  next
    assume st: "state (perform v x c) = SENT_CLOSE_WHEN_IDLE"
    from visited_CLOSE [OF st, of v xs] Cons.prems st show ?thesis by (simp add: visited_Cons)
  qed
qed

lemma visited_NONE:
  "state c = NONE \<Longrightarrow>
     visited v xs c = [NONE] \<or>
     visited v xs c = [NONE, SENT_NOTIFY_PENDING_SHUTDOWN] \<or>
     visited v xs c = [NONE, SENT_NOTIFY_PENDING_SHUTDOWN, SENT_CLOSE_WHEN_IDLE] \<or>
     visited v xs c = [NONE, SENT_CLOSE_WHEN_IDLE]"
proof (induction xs arbitrary: c)
  case Nil
  then show ?case by (simp add: visited_Nil)
next
  case (Cons x xs)
  show ?case
  proof (cases "state (perform v x c)")
    case NONE
    from Cons.IH [OF NONE] Cons.prems NONE show ?thesis by (simp add: visited_Cons)
  next
    case SENT_NOTIFY_PENDING_SHUTDOWN
    from visited_NOTIFY [OF SENT_NOTIFY_PENDING_SHUTDOWN, of v xs] Cons.prems
      SENT_NOTIFY_PENDING_SHUTDOWN
    show ?thesis by (auto simp add: visited_Cons)
  next
    case SENT_CLOSE_WHEN_IDLE
    from visited_CLOSE [OF SENT_CLOSE_WHEN_IDLE, of v xs] Cons.prems SENT_CLOSE_WHEN_IDLE
    show ?thesis by (simp add: visited_Cons)
  qed
qed

lemma visited_NONE_unforced:
  "state c = NONE \<Longrightarrow> \<forall>x \<in> set xs. \<not> forced x \<Longrightarrow>
     visited v xs c = [NONE] \<or>
     visited v xs c = [NONE, SENT_NOTIFY_PENDING_SHUTDOWN] \<or>
     visited v xs c = [NONE, SENT_NOTIFY_PENDING_SHUTDOWN, SENT_CLOSE_WHEN_IDLE]"
proof (induction xs arbitrary: c)
  case Nil
  then show ?case by (simp add: visited_Nil)
next
  case (Cons x xs)
  from Cons.prems have nf: "\<not> forced x" and rest: "\<forall>x \<in> set xs. \<not> forced x" by simp_all
  from perform_NONE_unforced [OF Cons.prems(1) nf, of v] show ?case
  proof
    assume st: "state (perform v x c) = NONE"
    from Cons.IH [OF st rest] Cons.prems(1) st show ?thesis by (simp add: visited_Cons)
  next
    assume st: "state (perform v x c) = SENT_NOTIFY_PENDING_SHUTDOWN"
    from visited_NOTIFY [OF st, of v xs] Cons.prems(1) st
    show ?thesis by (auto simp add: visited_Cons)
  qed
qed

text \<open>
  Claim C4 as stated fails: a forced \<^verbatim>\<open>fireCloseWhenIdle(true)\<close> on a new connection
  goes from \<open>NONE\<close> straight to \<open>SENT_CLOSE_WHEN_IDLE\<close>, and the states passed through,
  \<open>[NONE, SENT_CLOSE_WHEN_IDLE]\<close>, are not a prefix of the full order.
\<close>

theorem visited_prefix_counterexample:
  "\<not> prefix (visited countingHooks [FireCloseWhenIdle True] countingConnection)
       [NONE, SENT_NOTIFY_PENDING_SHUTDOWN, SENT_CLOSE_WHEN_IDLE]"
  by (simp add: visited_def newConnection_def fireCloseWhenIdle_def call_closeWhenIdle_def)

text \<open>
  Claim C4, amended. For every new connection and every sequence of calls, the drain
  states passed through are \<open>[NONE]\<close>, \<open>[NONE, SENT_NOTIFY_PENDING_SHUTDOWN]\<close>,
  \<open>[NONE, SENT_NOTIFY_PENDING_SHUTDOWN, SENT_CLOSE_WHEN_IDLE]\<close> or, when a close is forced
  before the notification, \<open>[NONE, SENT_CLOSE_WHEN_IDLE]\<close>: always a subsequence of the
  full order that starts at \<open>NONE\<close>, and a prefix of it when no call is forced.
\<close>

theorem visited_order:
  "visited v xs (newConnection mgr lh s) \<in>
     {[NONE],
      [NONE, SENT_NOTIFY_PENDING_SHUTDOWN],
      [NONE, SENT_NOTIFY_PENDING_SHUTDOWN, SENT_CLOSE_WHEN_IDLE],
      [NONE, SENT_CLOSE_WHEN_IDLE]} \<and>
   subseq (visited v xs (newConnection mgr lh s))
     [NONE, SENT_NOTIFY_PENDING_SHUTDOWN, SENT_CLOSE_WHEN_IDLE] \<and>
   ((\<forall>x \<in> set xs. \<not> forced x) \<longrightarrow>
      prefix (visited v xs (newConnection mgr lh s))
        [NONE, SENT_NOTIFY_PENDING_SHUTDOWN, SENT_CLOSE_WHEN_IDLE])"
proof -
  have st: "state (newConnection mgr lh s) = NONE" by (simp add: newConnection_def)
  have all: "visited v xs (newConnection mgr lh s) \<in>
     {[NONE],
      [NONE, SENT_NOTIFY_PENDING_SHUTDOWN],
      [NONE, SENT_NOTIFY_PENDING_SHUTDOWN, SENT_CLOSE_WHEN_IDLE],
      [NONE, SENT_CLOSE_WHEN_IDLE]}"
    using visited_NONE [OF st, of v xs] by blast
  then have sub: "subseq (visited v xs (newConnection mgr lh s))
     [NONE, SENT_NOTIFY_PENDING_SHUTDOWN, SENT_CLOSE_WHEN_IDLE]"
    by auto
  have "prefix (visited v xs (newConnection mgr lh s))
        [NONE, SENT_NOTIFY_PENDING_SHUTDOWN, SENT_CLOSE_WHEN_IDLE]"
    if "\<forall>x \<in> set xs. \<not> forced x"
    using visited_NONE_unforced [OF st that, of v] by auto
  with all sub show ?thesis by blast
qed

theorem visited_order_witness:
  "filter forced [FireNotifyPendingShutdown, FireCloseWhenIdle False, FireNotifyPendingShutdown]
     = [] \<and>
   prefix
     (visited countingHooks
        [FireNotifyPendingShutdown, FireCloseWhenIdle False, FireNotifyPendingShutdown]
        countingConnection)
     [NONE, SENT_NOTIFY_PENDING_SHUTDOWN, SENT_CLOSE_WHEN_IDLE]"
  using
    visited_order
      [where v = countingHooks and mgr = None and lh = "()" and s = 0
         and xs = "[FireNotifyPendingShutdown, FireCloseWhenIdle False, FireNotifyPendingShutdown]"]
  by (simp add: drain_defs visited_def)

subsection \<open>How often and in which order the hooks are called\<close>

text \<open>
  Claim C5 as stated fails: every forced \<^verbatim>\<open>fireCloseWhenIdle(true)\<close> calls the hook
  \<^verbatim>\<open>closeWhenIdle\<close>, also in the state \<open>SENT_CLOSE_WHEN_IDLE\<close>, so two forced calls call
  it twice.
\<close>

theorem closeWhenIdle_at_most_once_counterexample:
  "\<not> count_list
       (invoked (run countingHooks [FireCloseWhenIdle True, FireCloseWhenIdle True]
          countingConnection))
       CloseWhenIdle \<le> 1"
  by (simp add: newConnection_def fireCloseWhenIdle_def call_closeWhenIdle_def)

text \<open>
  Claim C5, amended. For every sequence of calls on a new connection,
  \<^verbatim>\<open>notifyPendingShutdown\<close> is called at most once, and \<^verbatim>\<open>closeWhenIdle\<close> at most
  once more than the number of forced calls (so at most once when no call is forced).
  The call log is calls of \<^verbatim>\<open>notifyPendingShutdown\<close> followed by calls of
  \<^verbatim>\<open>closeWhenIdle\<close>: when both hooks are called, \<^verbatim>\<open>notifyPendingShutdown\<close> comes
  first, forced or not.
\<close>

theorem drain_hooks_order:
  "count_list (invoked (run v xs (newConnection mgr lh s))) NotifyPendingShutdown \<le> 1 \<and>
   count_list (invoked (run v xs (newConnection mgr lh s))) CloseWhenIdle
     \<le> Suc (length (filter forced xs)) \<and>
   (\<exists>a n. invoked (run v xs (newConnection mgr lh s)) =
      replicate a NotifyPendingShutdown @ replicate n CloseWhenIdle)"
proof -
  obtain a n where inv: "invoked (run v xs (newConnection mgr lh s)) =
      replicate a NotifyPendingShutdown @ replicate n CloseWhenIdle"
    and "a \<le> 1" and "n \<le> Suc (length (filter forced xs))"
    using drain_invariant [of v xs mgr lh s] by blast
  then have "count_list (invoked (run v xs (newConnection mgr lh s))) NotifyPendingShutdown \<le> 1"
    and "count_list (invoked (run v xs (newConnection mgr lh s))) CloseWhenIdle
     \<le> Suc (length (filter forced xs))"
    by (simp_all add: count_list_replicate)
  with inv show ?thesis by blast
qed

subsection \<open>Frame\<close>

text \<open>
  Claim C10. The two drain entry points change the drain state, and through the hook
  the state of the subtype and the call log, and no other member: the connection after
  the call is the connection before it with these three fields replaced. In particular
  \<^verbatim>\<open>connectionManager_\<close> is unchanged, and \<^verbatim>\<open>getConnectionManager()\<close> returns the
  pointer last passed to \<^verbatim>\<open>setConnectionManager\<close>, whatever drain calls came before or
  after.
\<close>

theorem drain_frame:
  "fireNotifyPendingShutdown v c =
     c\<lparr>state := state (fireNotifyPendingShutdown v c),
       subtype := subtype (fireNotifyPendingShutdown v c),
       invoked := invoked (fireNotifyPendingShutdown v c)\<rparr> \<and>
   fireCloseWhenIdle v force_to_close c =
     c\<lparr>state := state (fireCloseWhenIdle v force_to_close c),
       subtype := subtype (fireCloseWhenIdle v force_to_close c),
       invoked := invoked (fireCloseWhenIdle v force_to_close c)\<rparr> \<and>
   connectionManager (fireNotifyPendingShutdown v c) = connectionManager c \<and>
   connectionManager (fireCloseWhenIdle v force_to_close c) = connectionManager c \<and>
   getConnectionManager (setConnectionManager mgr c) = mgr \<and>
   ((\<forall>y \<in> set ys. drain_call y) \<longrightarrow>
      getConnectionManager (run v (xs @ SetConnectionManager mgr # ys) c) = mgr)"
proof -
  have "getConnectionManager (run v (xs @ SetConnectionManager mgr # ys) c) = mgr"
    if "\<forall>y \<in> set ys. drain_call y"
    using run_drain_connectionManager [OF that, of v "setConnectionManager mgr (run v xs c)"]
    by (simp add: run_append getConnectionManager_def setConnectionManager_def)
  then show ?thesis
    by (simp add: fireNotifyPendingShutdown_def fireCloseWhenIdle_def
          call_notifyPendingShutdown_def call_closeWhenIdle_def
          getConnectionManager_def setConnectionManager_def)
qed

theorem drain_frame_witness:
  "list_all drain_call [FireNotifyPendingShutdown, FireCloseWhenIdle True] \<and>
   getConnectionManager
     (run countingHooks
        ([FireNotifyPendingShutdown] @
           SetConnectionManager (Some ()) # [FireNotifyPendingShutdown, FireCloseWhenIdle True])
        countingConnection)
     = Some ()"
  using
    drain_frame
      [where v = countingHooks and c = countingConnection and mgr = "Some ()"
         and xs = "[FireNotifyPendingShutdown]"
         and ys = "[FireNotifyPendingShutdown, FireCloseWhenIdle True]"]
  by (simp add: drain_defs)

subsection \<open>Idle time and idle timeout\<close>

text \<open>
  Claim C9. For a connection type that does not override \<^verbatim>\<open>getIdleTime\<close>, the call
  returns exactly 0 milliseconds, and by the documented rule the idle-based eviction
  before load shedding never selects such a connection, whatever else the manager's
  policy requires.
\<close>

theorem getIdleTime_default:
  "getIdleTime None c = 0 \<and> \<not> idleEvictionSelects policy (getIdleTime None c)"
  by (simp add: getIdleTime_def ManagedConnection_getIdleTime_def idleEvictionSelects_def)

text \<open>
  Claim C7. On a connection whose back-reference to the connection manager is null,
  \<^verbatim>\<open>resetTimeout()\<close> does nothing: the connection and its pending idle-timeout
  registration (none, if there was none) are as before.
\<close>

theorem resetTimeout_without_manager:
  "connectionManager c = None \<Longrightarrow> resetTimeout getDefaultTimeout now (c, t) = (c, t)"
  by (simp add: resetTimeout_def)

theorem resetTimeout_without_manager_witness:
  "connectionManager countingConnection = None \<and>
   resetTimeout (\<lambda>mgr. 60000) 0 (countingConnection, None) = (countingConnection, None)"
  using
    resetTimeout_without_manager
      [where c = countingConnection and getDefaultTimeout = "\<lambda>mgr. 60000" and now = 0
         and t = None]
  by (simp add: drain_defs)

end
